theory Spec2Isabelle
  imports Main "HOL-Library.AList" "HOL-Library.Multiset"
begin

section \<open>The conflict finder for Gettext PO files (translate/tools/poconflicts.py)\<close>

text \<open>
  The tool reads PO catalogs, indexes every translated unit by its cleaned source
  string, keeps the sources that were translated in more than one way, regroups them
  by their longest word, folds a word with its plural, and writes one catalog per
  group. The theory follows \<^verbatim>\<open>ConflictOptionParser\<close> method by method.

  Strings are Python 2 byte strings: a \<^typ>\<open>string\<close> is a list of 8-bit characters, and
  the character classes are those of the C locale.
\<close>

subsection \<open>Character classes of \<^verbatim>\<open>str\<close>\<close>

definition ascii_lowercase :: string where
  "ascii_lowercase = ''abcdefghijklmnopqrstuvwxyz''"

definition ascii_uppercase :: string where
  "ascii_uppercase = ''ABCDEFGHIJKLMNOPQRSTUVWXYZ''"

definition digits :: string where
  "digits = ''0123456789''"

definition whitespace :: string where
  "whitespace = [CHR '' '', CHR 0x09, CHR 0x0A, CHR 0x0B, CHR 0x0C, CHR 0x0D]"

definition isalnum :: "char \<Rightarrow> bool" where
  "isalnum c = (c \<in> set (ascii_lowercase @ ascii_uppercase @ digits))"

definition isspace :: "char \<Rightarrow> bool" where
  "isspace c = (c \<in> set whitespace)"

definition lower_char :: "char \<Rightarrow> char" where
  "lower_char c =
     (case map_of (zip ascii_uppercase ascii_lowercase) c of
        Some l \<Rightarrow> l
      | None \<Rightarrow> c)"

text \<open>\<^verbatim>\<open>string.lower()\<close>, \<^verbatim>\<open>string.replace(accelerator, "")\<close> for a one-character
  accelerator, \<^verbatim>\<open>string.strip()\<close> and \<^verbatim>\<open>string.rstrip(joinchar)\<close>.\<close>

definition lower :: "string \<Rightarrow> string" where
  "lower s = map lower_char s"

definition replace_char :: "char \<Rightarrow> string \<Rightarrow> string" where
  "replace_char accelerator s = filter (\<lambda>c. c \<noteq> accelerator) s"

definition strip :: "string \<Rightarrow> string" where
  "strip s = rev (dropWhile isspace (rev (dropWhile isspace s)))"

definition rstrip :: "char \<Rightarrow> string \<Rightarrow> string" where
  "rstrip joinchar s = rev (dropWhile (\<lambda>c. c = joinchar) (rev s))"

text \<open>The maximal runs of characters that satisfy \<open>P\<close>, left to right.
  \<^verbatim>\<open>source.split()\<close> returns the maximal runs of characters that are not whitespace.\<close>

function runs :: "(char \<Rightarrow> bool) \<Rightarrow> string \<Rightarrow> string list" where
  "runs P [] = []"
| "runs P (c # cs) =
     (if P c then takeWhile P (c # cs) # runs P (dropWhile P cs)
      else runs P cs)"
  by pat_completeness auto
termination
  by (relation "measure (\<lambda>(P, s). length s)") (auto simp: length_dropWhile_le less_Suc_eq_le)

definition split :: "string \<Rightarrow> string list" where
  "split s = runs (\<lambda>c. \<not> isspace c) s"

subsection \<open>Exceptions\<close>

text \<open>\<^verbatim>\<open>KeyboardInterrupt\<close> and \<^verbatim>\<open>SystemExit\<close> derive from \<^verbatim>\<open>BaseException\<close> only;
  \<^verbatim>\<open>KeyError\<close>, \<^verbatim>\<open>IndexError\<close> and every other error, \<open>Error\<close> with its message,
  derive from \<^verbatim>\<open>Exception\<close>.\<close>

datatype exn =
    KeyboardInterrupt
  | SystemExit
  | KeyError string
  | IndexError
  | Error string

fun is_Exception :: "exn \<Rightarrow> bool" where
  "is_Exception KeyboardInterrupt = False"
| "is_Exception SystemExit = False"
| "is_Exception (KeyError k) = True"
| "is_Exception IndexError = True"
| "is_Exception (Error msg) = True"

subsection \<open>Units, options and the three dictionaries\<close>

text \<open>A unit of the storage library, with the attributes the tool reads and the
  comment list it appends to.\<close>

record pounit =
  source :: string
  target :: string
  isheader :: bool
  istranslated :: bool
  hasplural :: bool
  othercomments :: "string list"

record options =
  ignorecase :: bool
  invert :: bool
  accelchars :: string
  outputdir :: string

text \<open>An entry of the index is the tuple \<^verbatim>\<open>(target, unit, fullinputpath)\<close>.\<close>

type_synonym translation = "string \<times> pounit \<times> string"

text \<open>
  A dictionary is the list of its items in iteration order, with distinct keys; a new
  key goes to the end (\<^const>\<open>AList.update\<close>) and a stored key keeps its place.
\<close>

type_synonym 'v dict = "(string \<times> 'v) list"

definition setdefault_extend :: "string \<Rightarrow> 'a list \<Rightarrow> 'a list dict \<Rightarrow> 'a list dict" where
  "setdefault_extend k xs d =
     AList.update k ((case map_of d k of None \<Rightarrow> [] | Some ys \<Rightarrow> ys) @ xs) d"

subsection \<open>\<^verbatim>\<open>clean\<close>\<close>

fun remove_accelerators :: "string \<Rightarrow> string \<Rightarrow> string" where
  "remove_accelerators [] s = s"
| "remove_accelerators (accelerator # rest) s =
     remove_accelerators rest (replace_char accelerator s)"

definition clean :: "string \<Rightarrow> options \<Rightarrow> string" where
  "clean s opts =
     strip (remove_accelerators (accelchars opts) (if ignorecase opts then lower s else s))"

subsection \<open>\<^verbatim>\<open>processfile\<close>\<close>

text \<open>
  Opening and parsing the file and reading a unit are the storage library's work, and
  each can raise. \<open>inputfile\<close> is what \<^verbatim>\<open>factory.getobject(self.openinputfile(...))\<close>
  gives: the exception it raises, or the catalog, whose items are met in order by the
  loop; an item is a unit, or the exception raised while the loop handles the unit at
  that place (before anything is appended for it).

  The loop appends to \<^verbatim>\<open>self.textmap\<close> as it goes, so an exception leaves in the index
  what was appended before it: the result is the index and the exception raised, if
  any.
\<close>

fun processunits ::
  "options \<Rightarrow> string \<Rightarrow> (exn + pounit) list \<Rightarrow> translation list dict
     \<Rightarrow> translation list dict \<times> exn option" where
  "processunits opts fullinputpath [] textmap = (textmap, None)"
| "processunits opts fullinputpath (Inl error # units) textmap = (textmap, Some error)"
| "processunits opts fullinputpath (Inr u # units) textmap =
     (if isheader u \<or> \<not> istranslated u then processunits opts fullinputpath units textmap
      else if hasplural u then processunits opts fullinputpath units textmap
      else
        let src = (if \<not> invert opts then clean (source u) opts else clean (target u) opts);
            tgt = (if \<not> invert opts then clean (target u) opts else clean (source u) opts)
        in processunits opts fullinputpath units
             (setdefault_extend src [(tgt, u, fullinputpath)] textmap))"

definition processfile ::
  "options \<Rightarrow> string \<Rightarrow> exn + (exn + pounit) list \<Rightarrow> translation list dict
     \<Rightarrow> translation list dict \<times> exn option" where
  "processfile opts fullinputpath inputfile textmap =
     (case inputfile of
        Inl error \<Rightarrow> (textmap, Some error)
      | Inr units \<Rightarrow> processunits opts fullinputpath units textmap)"

subsection \<open>\<^verbatim>\<open>flatten\<close>\<close>

fun flatten_loop :: "string \<Rightarrow> char \<Rightarrow> string \<Rightarrow> string" where
  "flatten_loop [] joinchar flattext = flattext"
| "flatten_loop (c # text) joinchar flattext =
     (if isalnum c then flatten_loop text joinchar (flattext @ [c])
      else if flattext \<noteq> [] \<and> isalnum (last flattext)
           then flatten_loop text joinchar (flattext @ [joinchar])
      else flatten_loop text joinchar flattext)"

definition flatten :: "string \<Rightarrow> char \<Rightarrow> string" where
  "flatten text joinchar = rstrip joinchar (flatten_loop text joinchar [])"

subsection \<open>\<^verbatim>\<open>buildconflictmap\<close>\<close>

fun buildconflictmap_loop ::
  "translation list dict \<Rightarrow> translation list dict \<Rightarrow> translation list dict" where
  "buildconflictmap_loop [] conflictmap = conflictmap"
| "buildconflictmap_loop ((src, translations) # rest) conflictmap =
     (let flat = flatten src CHR '' '' in
      if length flat \<le> 1 then buildconflictmap_loop rest conflictmap
      else if length translations > 1
              \<and> length (remdups (map fst translations)) > 1
           then buildconflictmap_loop rest (AList.update flat translations conflictmap)
      else buildconflictmap_loop rest conflictmap)"

definition buildconflictmap :: "translation list dict \<Rightarrow> translation list dict" where
  "buildconflictmap textmap = buildconflictmap_loop textmap []"

subsection \<open>\<^verbatim>\<open>outputconflicts\<close>\<close>

text \<open>The cluster key of a conflicting source: its words, sorted by length with a
  stable sort, and the last of them. \<^verbatim>\<open>words[-1]\<close> raises on an empty list.\<close>

definition clusterkey :: "string \<Rightarrow> exn + string" where
  "clusterkey src =
     (let words = sort_key length (split src)
      in if words = [] then Inl IndexError else Inr (last words))"

fun cluster ::
  "translation list dict \<Rightarrow> translation list dict \<Rightarrow> exn + translation list dict" where
  "cluster [] reducedmap = Inr reducedmap"
| "cluster ((src, translations) # rest) reducedmap =
     (case clusterkey src of
        Inl e \<Rightarrow> Inl e
      | Inr w \<Rightarrow> cluster rest (setdefault_extend w translations reducedmap))"

definition find_plurals :: "translation list dict \<Rightarrow> (string \<times> string) list" where
  "find_plurals reducedmap =
     map (\<lambda>word. (word, word @ ''s''))
       (filter (\<lambda>word. word @ ''s'' \<in> set (map fst reducedmap)) (map fst reducedmap))"

text \<open>\<^verbatim>\<open>reducedmap[word].extend(reducedmap.pop(pluralword))\<close>: the lookup of \<open>word\<close>
  comes first and raises if the key is gone.\<close>

fun reduce_plurals ::
  "(string \<times> string) list \<Rightarrow> translation list dict \<Rightarrow> exn + translation list dict" where
  "reduce_plurals [] reducedmap = Inr reducedmap"
| "reduce_plurals ((word, pluralword) # rest) reducedmap =
     (case map_of reducedmap word of
        None \<Rightarrow> Inl (KeyError word)
      | Some ws \<Rightarrow>
          (case map_of reducedmap pluralword of
             None \<Rightarrow> Inl (KeyError pluralword)
           | Some ps \<Rightarrow>
               reduce_plurals rest
                 (AList.update word (ws @ ps) (AList.delete pluralword reducedmap))))"

definition path_join :: "string \<Rightarrow> string \<Rightarrow> string" where
  "path_join dir name =
     (if name \<noteq> [] \<and> hd name = CHR ''/'' then name
      else if dir = [] \<or> last dir = CHR ''/'' then dir @ name
      else dir @ ''/'' @ name)"

definition poconflicts_comment :: "string \<Rightarrow> string" where
  "poconflicts_comment filename = ''# (poconflicts) '' @ filename @ [CHR 0x0A]"

definition tag_unit :: "translation \<Rightarrow> pounit" where
  "tag_unit t =
     (case t of (tgt, u, filename) \<Rightarrow>
        u\<lparr>othercomments := othercomments u @ [poconflicts_comment filename]\<rparr>)"

definition conflictfile :: "options \<Rightarrow> string \<times> translation list \<Rightarrow> string \<times> pounit list" where
  "conflictfile opts item =
     (case item of (src, translations) \<Rightarrow>
        (path_join (outputdir opts) (flatten src CHR ''-'' @ ''.po''),
         map tag_unit translations))"

text \<open>What a run leaves behind: the pair printed in the summary line and the reduced
  map, and the catalogs written, each with its path and its units.\<close>

record written =
  summary :: "nat \<times> nat"
  reduced :: "translation list dict"
  files :: "(string \<times> pounit list) list"

definition outputconflicts ::
  "options \<Rightarrow> translation list dict \<Rightarrow> translation list dict \<Rightarrow> exn + written" where
  "outputconflicts opts textmap conflictmap =
     (case cluster conflictmap [] of
        Inl e \<Rightarrow> Inl e
      | Inr reducedmap \<Rightarrow>
          (case reduce_plurals (find_plurals reducedmap) reducedmap of
             Inl e \<Rightarrow> Inl e
           | Inr reducedmap' \<Rightarrow>
               Inr \<lparr>summary = (length conflictmap, length textmap),
                    reduced = reducedmap',
                    files = map (conflictfile opts) reducedmap'\<rparr>))"

subsection \<open>\<^verbatim>\<open>recursiveprocess\<close>\<close>

record ingest =
  textmap :: "translation list dict"
  warnings :: "string list"

text \<open>The loop over the input files. \<^verbatim>\<open>except Exception\<close> catches what derives from
  \<^verbatim>\<open>Exception\<close>; anything else leaves the loop and the run. A caught exception that
  is a \<^verbatim>\<open>KeyboardInterrupt\<close> is raised again, any other is reported as a warning.\<close>

fun process_files ::
  "options \<Rightarrow> (string \<times> (exn + (exn + pounit) list)) list \<Rightarrow> ingest \<Rightarrow> exn + ingest" where
  "process_files opts [] st = Inr st"
| "process_files opts ((fullinputpath, inputfile) # rest) st =
     (case processfile opts fullinputpath inputfile (textmap st) of
        (textmap', None) \<Rightarrow> process_files opts rest (st\<lparr>textmap := textmap'\<rparr>)
      | (textmap', Some error) \<Rightarrow>
          if \<not> is_Exception error then Inl error
          else if error = KeyboardInterrupt then Inl error
          else process_files opts rest
                 (st\<lparr>textmap := textmap',
                    warnings := warnings st @ [''Error processing: input '' @ fullinputpath]\<rparr>))"

definition recursiveprocess ::
  "options \<Rightarrow> (string \<times> (exn + (exn + pounit) list)) list \<Rightarrow> exn + ingest \<times> written" where
  "recursiveprocess opts inputfiles =
     (case process_files opts inputfiles \<lparr>textmap = [], warnings = []\<rparr> of
        Inl e \<Rightarrow> Inl e
      | Inr st \<Rightarrow>
          (case outputconflicts opts (textmap st) (buildconflictmap (textmap st)) of
             Inl e \<Rightarrow> Inl e
           | Inr w \<Rightarrow> Inr (st, w)))"




definition parsed :: "pounit list \<Rightarrow> exn + (exn + pounit) list" where
  "parsed units = Inr (map Inr units)"


subsection \<open>Concrete catalogs\<close>

text \<open>A translated, singular unit that is not a header, and the options of a run
  without \<^verbatim>\<open>--ignore-case\<close>, \<^verbatim>\<open>--invert\<close> and \<^verbatim>\<open>--accelerator\<close>.\<close>

definition mk_unit :: "string \<Rightarrow> string \<Rightarrow> pounit" where
  "mk_unit s t =
     \<lparr>source = s, target = t, isheader = False, istranslated = True,
      hasplural = False, othercomments = []\<rparr>"

definition default_options :: options where
  "default_options =
     \<lparr>ignorecase = False, invert = False, accelchars = [], outputdir = ''out''\<rparr>"

text \<open>Two catalogs that translate \<^verbatim>\<open>Save!\<close> and \<^verbatim>\<open>Save?\<close> differently.\<close>

definition save_inputs :: "(string \<times> (exn + (exn + pounit) list)) list" where
  "save_inputs =
     [(''A.po'', parsed [mk_unit ''Save!'' ''x1'', mk_unit ''Save?'' ''y1'']),
      (''B.po'', parsed [mk_unit ''Save!'' ''x2'', mk_unit ''Save?'' ''y2''])]"

definition save_excl :: "translation list" where
  "save_excl =
     [(''x1'', mk_unit ''Save!'' ''x1'', ''A.po''), (''x2'', mk_unit ''Save!'' ''x2'', ''B.po'')]"

definition save_quest :: "translation list" where
  "save_quest =
     [(''y1'', mk_unit ''Save?'' ''y1'', ''A.po''), (''y2'', mk_unit ''Save?'' ''y2'', ''B.po'')]"

text \<open>Two catalogs that translate \<^verbatim>\<open>Open\<close> and \<^verbatim>\<open>Open...\<close> differently, and the
  index and the two translation lists they give.\<close>

definition open_inputs :: "(string \<times> (exn + (exn + pounit) list)) list" where
  "open_inputs =
     [(''A.po'', parsed [mk_unit ''Open'' ''Abrir'', mk_unit ''Open...'' ''Abrir...'']),
      (''B.po'', parsed [mk_unit ''Open'' ''Abra'', mk_unit ''Open...'' ''Abra...''])]"

definition open_list :: "translation list" where
  "open_list =
     [(''Abrir'', mk_unit ''Open'' ''Abrir'', ''A.po''),
      (''Abra'', mk_unit ''Open'' ''Abra'', ''B.po'')]"

definition open_dots_list :: "translation list" where
  "open_dots_list =
     [(''Abrir...'', mk_unit ''Open...'' ''Abrir...'', ''A.po''),
      (''Abra...'', mk_unit ''Open...'' ''Abra...'', ''B.po'')]"

definition open_textmap :: "translation list dict" where
  "open_textmap = [(''Open'', open_list), (''Open...'', open_dots_list)]"

text \<open>Two pairs of catalogs with conflicts on \<^verbatim>\<open>prince\<close>, \<^verbatim>\<open>princes\<close> and
  \<^verbatim>\<open>princess\<close>; they differ in the order of the first two units.\<close>

definition prince_inputs :: "(string \<times> (exn + (exn + pounit) list)) list" where
  "prince_inputs =
     [(''A.po'', parsed [mk_unit ''prince'' ''a1'', mk_unit ''princes'' ''b1'',
                      mk_unit ''princess'' ''c1'']),
      (''B.po'', parsed [mk_unit ''prince'' ''a2'', mk_unit ''princes'' ''b2'',
                      mk_unit ''princess'' ''c2''])]"

definition princes_inputs :: "(string \<times> (exn + (exn + pounit) list)) list" where
  "princes_inputs =
     [(''A.po'', parsed [mk_unit ''princes'' ''b1'', mk_unit ''prince'' ''a1'',
                      mk_unit ''princess'' ''c1'']),
      (''B.po'', parsed [mk_unit ''prince'' ''a2'', mk_unit ''princes'' ''b2'',
                      mk_unit ''princess'' ''c2''])]"

text \<open>The words of a flattened string as the specification describes them: the maximal
  alphanumeric runs, joined with one join character between neighbours.\<close>

fun join_runs :: "char \<Rightarrow> string list \<Rightarrow> string" where
  "join_runs j [] = []"
| "join_runs j [w] = w"
| "join_runs j (w # v # ws) = w @ j # join_runs j (v # ws)"

text \<open>The cluster key as the specification words it: the longest word, and among
  words of equal length the one met first from the left.\<close>

definition spec_clusterkey :: "string \<Rightarrow> string option" where
  "spec_clusterkey src =
     (let words = split src
      in if words = [] then None
         else Some (foldl (\<lambda>best w. if length best < length w then w else best)
                      (hd words) (tl words)))"

text \<open>A reduced map with the keys \<^verbatim>\<open>file\<close>, \<^verbatim>\<open>menu\<close> and \<^verbatim>\<open>files\<close>.\<close>

definition menu_reducedmap :: "translation list dict" where
  "menu_reducedmap =
     [(''file'', [(''Datei'', mk_unit ''file'' ''Datei'', ''A.po''),
                  (''Akte'', mk_unit ''file'' ''Akte'', ''B.po'')]),
      (''menu'', [(''Menue'', mk_unit ''menu'' ''Menue'', ''A.po''),
                  (''Karte'', mk_unit ''menu'' ''Karte'', ''B.po'')]),
      (''files'', [(''Dateien'', mk_unit ''files'' ''Dateien'', ''A.po''),
                   (''Akten'', mk_unit ''files'' ''Akten'', ''B.po'')])]"




text \<open>A unit with its source and target fields swapped, and the same swap in every unit
  of an index, of the input catalogs and of what a run leaves behind.\<close>

definition swap_unit :: "pounit \<Rightarrow> pounit" where
  "swap_unit u = u\<lparr>source := target u, target := source u\<rparr>"

definition swap_translation :: "translation \<Rightarrow> translation" where
  "swap_translation t = (case t of (tgt, u, filename) \<Rightarrow> (tgt, swap_unit u, filename))"

definition swap_dict :: "translation list dict \<Rightarrow> translation list dict" where
  "swap_dict d = map (\<lambda>(k, translations). (k, map swap_translation translations)) d"

definition swap_catalogs ::
  "(string \<times> (exn + (exn + pounit) list)) list
     \<Rightarrow> (string \<times> (exn + (exn + pounit) list)) list" where
  "swap_catalogs inputfiles =
     map (\<lambda>(path, inputfile). (path, map_sum id (map (map_sum id swap_unit)) inputfile))
       inputfiles"

definition swap_run :: "ingest \<times> written \<Rightarrow> ingest \<times> written" where
  "swap_run r =
     (case r of (st, w) \<Rightarrow>
        (\<lparr>textmap = swap_dict (textmap st), warnings = warnings st\<rparr>,
         \<lparr>summary = summary w,
          reduced = swap_dict (reduced w),
          files = map (\<lambda>(path, units). (path, map swap_unit units)) (files w)\<rparr>))"

text \<open>Two catalogs that translate \<^verbatim>\<open>Open\<close> differently, and what the run on them
  leaves behind.\<close>

definition abrir_inputs :: "(string \<times> (exn + (exn + pounit) list)) list" where
  "abrir_inputs =
     [(''A.po'', parsed [mk_unit ''Open'' ''Abrir'']),
      (''B.po'', parsed [mk_unit ''Open'' ''Abra''])]"

definition abrir_ingest :: ingest where
  "abrir_ingest =
     \<lparr>textmap = [(''Open'', [(''Abrir'', mk_unit ''Open'' ''Abrir'', ''A.po''),
                             (''Abra'', mk_unit ''Open'' ''Abra'', ''B.po'')])],
      warnings = []\<rparr>"

definition abrir_written :: written where
  "abrir_written =
     \<lparr>summary = (1, 1),
      reduced = [(''Open'', [(''Abrir'', mk_unit ''Open'' ''Abrir'', ''A.po''),
                             (''Abra'', mk_unit ''Open'' ''Abra'', ''B.po'')])],
      files = [(''out/Open.po'',
                [(mk_unit ''Open'' ''Abrir'')
                   \<lparr>othercomments := [''# (poconflicts) A.po'' @ [CHR 0x0A]]\<rparr>,
                 (mk_unit ''Open'' ''Abra'')
                   \<lparr>othercomments := [''# (poconflicts) B.po'' @ [CHR 0x0A]]\<rparr>])]\<rparr>"

text \<open>All entries of a dictionary, value after value.\<close>

definition entries :: "translation list dict \<Rightarrow> translation list" where
  "entries d = concat (map snd d)"

section \<open>Properties\<close>

subsection \<open>Two sources with one flattened form\<close>

text \<open>
  C10. There are inputs in which two distinct cleaned sources, each a conflict on its
  own, flatten with a space to the same string: here \<^verbatim>\<open>Save!\<close> and \<^verbatim>\<open>Save?\<close>. The
  conflict map then holds, under the flattened key, only the translation list of the
  index key processed last; the entries of the earlier key are in no value of the
  conflict map and in no catalog written.
\<close>

theorem flattened_key_collision_loses_entries:
  "(case recursiveprocess default_options save_inputs of
      Inl e \<Rightarrow> False
    | Inr (st, w) \<Rightarrow>
        textmap st = [(''Save!'', save_excl), (''Save?'', save_quest)]
      \<and> flatten ''Save!'' CHR '' '' = flatten ''Save?'' CHR '' ''
      \<and> buildconflictmap [(''Save!'', save_excl)] = [(''Save'', save_excl)]
      \<and> buildconflictmap [(''Save?'', save_quest)] = [(''Save'', save_quest)]
      \<and> buildconflictmap (textmap st) = [(''Save'', save_quest)]
      \<and> set save_excl \<inter> set (concat (map snd (buildconflictmap (textmap st)))) = {}
      \<and> map fst (files w) = [''out/Save.po'']
      \<and> filter (\<lambda>u. source u = ''Save!'') (concat (map snd (files w))) = [])"
  by code_simp

text \<open>
  C1. The conflict map should hold \<open>flatten s\<close> mapped to the translation list \<open>L\<close>
  of every index key \<open>s\<close> whose flattened form is longer than one character and whose
  list has more than one entry and two distinct targets. The index below is the one
  ingestion builds from two catalogs; its key \<^verbatim>\<open>Open\<close> meets all three conditions, yet
  the conflict map holds the list of \<^verbatim>\<open>Open...\<close> under the flattened key, and the
  list of \<^verbatim>\<open>Open\<close> nowhere.
\<close>

theorem buildconflictmap_overwrites_colliding_source:
  "process_files default_options open_inputs \<lparr>textmap = [], warnings = []\<rparr>
     = Inr \<lparr>textmap = open_textmap, warnings = []\<rparr>
   \<and> map_of open_textmap ''Open'' = Some open_list
   \<and> length (flatten ''Open'' CHR '' '') > 1
   \<and> length open_list > 1
   \<and> length (remdups (map fst open_list)) > 1
   \<and> map_of (buildconflictmap open_textmap) (flatten ''Open'' CHR '' '') = Some open_dots_list
   \<and> open_dots_list \<noteq> open_list
   \<and> buildconflictmap open_textmap = [(''Open'', open_dots_list)]"
  by code_simp

subsection \<open>A word, its plural and the plural of its plural\<close>

text \<open>With the keys \<^verbatim>\<open>prince\<close>, \<^verbatim>\<open>princes\<close> and \<^verbatim>\<open>princess\<close> the folding loop
  has the two pairs (prince, princes) and (princes, princess). Visiting them in this
  order looks up \<^verbatim>\<open>princes\<close> after it was popped; visiting them in the other order
  folds all three lists into \<^verbatim>\<open>prince\<close>.\<close>

lemma outputconflicts_chain_raises:
  "outputconflicts opts tm [(''prince'', L1), (''princes'', L2), (''princess'', L3)]
     = Inl (KeyError ''princes'')"
  by (simp add: outputconflicts_def clusterkey_def split_def isspace_def whitespace_def
      setdefault_extend_def find_plurals_def)

lemma outputconflicts_chain_folds_twice:
  "outputconflicts opts tm [(''princes'', L2), (''prince'', L1), (''princess'', L3)]
     = Inr \<lparr>summary = (3, length tm),
            reduced = [(''prince'', L1 @ L2 @ L3)],
            files = [conflictfile opts (''prince'', L1 @ L2 @ L3)]\<rparr>"
  by (simp add: outputconflicts_def clusterkey_def split_def isspace_def whitespace_def
      setdefault_extend_def find_plurals_def)

text \<open>
  C3. Plural folding should end without error and fold each plural into its singular
  once, never chaining, also when \<open>w\<close>, \<open>w + s\<close> and \<open>w + ss\<close> are all keys. On the
  catalogs below the run raises \<^verbatim>\<open>KeyError\<close> when \<^verbatim>\<open>prince\<close> is met first, and when
  \<^verbatim>\<open>princes\<close> is met first it chains: \<^verbatim>\<open>prince\<close> is the one key left and holds the
  entries of all three.
\<close>

theorem plural_folding_chain_raises_or_chains:
  "recursiveprocess default_options prince_inputs = Inl (KeyError ''princes'')
   \<and> (case recursiveprocess default_options princes_inputs of
        Inl e \<Rightarrow> False
      | Inr (st, w) \<Rightarrow>
          map fst (buildconflictmap (textmap st)) = [''princes'', ''prince'', ''princess'']
        \<and> map fst (reduced w) = [''prince'']
        \<and> map (\<lambda>(t, u, f). source u) (concat (map snd (reduced w)))
            = [''prince'', ''prince'', ''princes'', ''princes'', ''princess'', ''princess''])"
  by code_simp

subsection \<open>\<^verbatim>\<open>clean\<close> is idempotent\<close>

lemma lower_char_idem: "lower_char (lower_char c) = lower_char c"
  by (simp add: lower_char_def ascii_uppercase_def ascii_lowercase_def)

lemma lower_fixed: "set t \<subseteq> set (lower s) \<Longrightarrow> lower t = t"
  unfolding lower_def by (induction t) (auto simp: lower_char_idem)

lemma replace_char_absent: "accelerator \<notin> set s \<Longrightarrow> replace_char accelerator s = s"
  by (induction s) (auto simp: replace_char_def)

lemma set_replace_char: "set (replace_char accelerator s) = set s - {accelerator}"
  by (auto simp: replace_char_def)

lemma set_remove_accelerators: "set (remove_accelerators accs s) = set s - set accs"
  by (induction accs arbitrary: s) (auto simp: set_replace_char)

lemma remove_accelerators_absent:
  "set s \<inter> set accs = {} \<Longrightarrow> remove_accelerators accs s = s"
  by (induction accs arbitrary: s) (auto simp: replace_char_absent)

lemma set_strip: "set (strip s) \<subseteq> set s"
proof -
  have "set (strip s) \<subseteq> set (dropWhile isspace s)"
    unfolding strip_def using set_dropWhileD by fastforce
  also have "\<dots> \<subseteq> set s" using set_dropWhileD by fastforce
  finally show ?thesis .
qed

lemma dropWhile_twice: "dropWhile P (dropWhile P xs) = dropWhile P xs"
  by (induction xs) auto

lemma last_dropWhile: "dropWhile P xs \<noteq> [] \<Longrightarrow> last (dropWhile P xs) = last xs"
  by (induction xs) (auto split: if_splits)

text \<open>A stripped string starts and ends with a character that is not whitespace, so
  stripping it again changes nothing.\<close>

lemma strip_idem: "strip (strip s) = strip s"
proof -
  define d where "d = dropWhile isspace s"
  define e where "e = dropWhile isspace (rev d)"
  have t: "strip s = rev e" by (simp add: strip_def d_def e_def)
  have front: "dropWhile isspace (rev e) = rev e"
  proof (cases "e = []")
    case True then show ?thesis by simp
  next
    case False
    then have "last e = last (rev d)" unfolding e_def by (rule last_dropWhile)
    moreover from False have dne: "d \<noteq> []" by (auto simp: e_def)
    ultimately have "hd (rev e) = hd d" using False by (simp add: hd_rev last_rev)
    moreover have "\<not> isspace (hd d)" using dne unfolding d_def by (rule hd_dropWhile)
    ultimately show ?thesis by (simp add: dropWhile_eq_self_iff)
  qed
  have rear: "dropWhile isspace e = e"
    unfolding e_def by (rule dropWhile_twice)
  show ?thesis unfolding t by (simp add: strip_def front rear)
qed

text \<open>
  C7. \<^verbatim>\<open>clean\<close> is idempotent for every string and every fixed choice of the
  ignore-case flag and the accelerator characters: a cleaned string is already in
  lower case when the flag is set, holds no accelerator character and is stripped.
  (Being a HOL function of its two arguments, \<^const>\<open>clean\<close> is deterministic and
  reads nothing else.)
\<close>

theorem clean_idempotent: "clean (clean s opts) opts = clean s opts"
proof -
  let ?pre = "if ignorecase opts then lower s else s"
  let ?t = "clean s opts"
  have sub: "set ?t \<subseteq> set (remove_accelerators (accelchars opts) ?pre)"
    unfolding clean_def by (rule set_strip)
  have acc: "set ?t \<inter> set (accelchars opts) = {}"
    using sub by (auto simp: set_remove_accelerators)
  have low: "ignorecase opts \<Longrightarrow> lower ?t = ?t"
  proof -
    assume ic: "ignorecase opts"
    have "set ?t \<subseteq> set (lower s)" using sub ic by (auto simp: set_remove_accelerators)
    then show ?thesis by (rule lower_fixed)
  qed
  have st: "strip ?t = ?t" unfolding clean_def by (rule strip_idem)
  have "clean ?t opts =
      strip (remove_accelerators (accelchars opts) (if ignorecase opts then lower ?t else ?t))"
    by (simp only: clean_def)
  also have "\<dots> = ?t"
    using low acc st by (cases "ignorecase opts") (simp_all add: remove_accelerators_absent)
  finally show ?thesis .
qed

subsection \<open>\<^verbatim>\<open>flatten\<close> and the alphanumeric runs\<close>

lemma join_runs_Cons: "ws \<noteq> [] \<Longrightarrow> join_runs j (w # ws) = w @ j # join_runs j ws"
  by (cases ws) auto

lemma runs_empty_iff: "runs P s = [] \<longleftrightarrow> (\<forall>c\<in>set s. \<not> P c)"
  by (induction P s rule: runs.induct) auto

lemma runs_all: "w \<in> set (runs P s) \<Longrightarrow> w \<noteq> [] \<and> (\<forall>c\<in>set w. P c)"
proof (induction P s rule: runs.induct)
  case (1 P)
  then show ?case by simp
next
  case (2 P c cs)
  show ?case
  proof (cases "P c")
    case True
    then have "w = takeWhile P (c # cs) \<or> w \<in> set (runs P (dropWhile P cs))"
      using "2.prems" by simp
    then show ?thesis
    proof
      assume w: "w = takeWhile P (c # cs)"
      have "\<forall>x\<in>set (takeWhile P (c # cs)). P x" by (meson set_takeWhileD)
      moreover have "takeWhile P (c # cs) \<noteq> []" using True by simp
      ultimately show ?thesis unfolding w by blast
    next
      assume "w \<in> set (runs P (dropWhile P cs))"
      then show ?thesis using "2.IH"(1)[OF True] by blast
    qed
  next
    case False
    then have "w \<in> set (runs P cs)" using "2.prems" by simp
    then show ?thesis using "2.IH"(2)[OF False] by blast
  qed
qed

lemma flatten_loop_alnum:
  "\<forall>c\<in>set r. isalnum c \<Longrightarrow> flatten_loop (r @ rest) j acc = flatten_loop rest j (acc @ r)"
  by (induction r arbitrary: acc) auto

lemma flatten_loop_runs_gen:
  assumes j: "\<not> isalnum j"
  shows "P = isalnum \<Longrightarrow> flatten_loop inp j acc =
     acc @ (if acc \<noteq> [] \<and> isalnum (last acc) \<and> inp \<noteq> [] \<and> \<not> isalnum (hd inp) then [j] else [])
         @ join_runs j (runs P inp)
         @ (if runs P inp \<noteq> [] \<and> \<not> isalnum (last inp) then [j] else [])"
proof (induction P inp arbitrary: acc rule: runs.induct)
  case (1 P)
  then show ?case by simp
next
  case (2 P c cs)
  note P = \<open>P = isalnum\<close>
  show ?case
  proof (cases "isalnum c")
    case True
    define tw where "tw = takeWhile isalnum (c # cs)"
    define dw where "dw = dropWhile isalnum cs"
    have split_inp: "c # cs = tw @ dw" using True by (simp add: tw_def dw_def)
    have tw: "\<forall>x\<in>set tw. isalnum x" "tw \<noteq> []" using True by (auto simp: tw_def dest: set_takeWhileD)
    have lasttw: "isalnum (last tw)" using tw by (meson last_in_set)
    have dwhd: "dw \<noteq> [] \<Longrightarrow> \<not> isalnum (hd dw)" unfolding dw_def by (rule hd_dropWhile)
    have R: "runs P (c # cs) = tw # runs P dw" using True P by (simp add: tw_def dw_def)
    have step: "flatten_loop (c # cs) j acc = flatten_loop dw j (acc @ tw)"
      unfolding split_inp using tw(1) by (rule flatten_loop_alnum)
    have Pc: "P c" using True P by simp
    have IH: "flatten_loop dw j (acc @ tw) =
       (acc @ tw) @ (if dw \<noteq> [] then [j] else [])
         @ join_runs j (runs P dw)
         @ (if runs P dw \<noteq> [] \<and> \<not> isalnum (last dw) then [j] else [])"
      using "2.IH"(1)[OF Pc P, of "acc @ tw"] tw lasttw dwhd P by (auto simp: dw_def)
    have hdc: "hd (c # cs) = c" by simp
    show ?thesis
    proof (cases "dw = []")
      case True
      have lhs: "flatten_loop (c # cs) j acc = acc @ tw"
        unfolding step IH using True by (simp add: runs.simps(1))
      have R1: "runs P (c # cs) = [tw]" unfolding R using True by (simp add: runs.simps(1))
      have lastc: "last (c # cs) = last tw" unfolding split_inp using True by simp
      show ?thesis unfolding lhs R1 lastc hdc using \<open>isalnum c\<close> lasttw by simp
    next
      case dne: False
      then have lastt: "last (c # cs) = last dw" unfolding split_inp by simp
      show ?thesis
      proof (cases "runs P dw = []")
        case True
        then have nl: "\<not> isalnum (last dw)" using dne P by (simp add: runs_empty_iff)
        have lhs: "flatten_loop (c # cs) j acc = acc @ tw @ [j]"
          unfolding step IH using True dne by simp
        have R1: "runs P (c # cs) = [tw]" unfolding R using True by simp
        show ?thesis unfolding lhs R1 lastt hdc using \<open>isalnum c\<close> nl by simp
      next
        case False
        have lhs: "flatten_loop (c # cs) j acc = acc @ tw @ j # join_runs j (runs P dw)
            @ (if \<not> isalnum (last dw) then [j] else [])"
          unfolding step IH using False dne by simp
        have J: "join_runs j (tw # runs P dw) = tw @ j # join_runs j (runs P dw)"
          using False by (rule join_runs_Cons)
        show ?thesis unfolding lhs R lastt hdc J using \<open>isalnum c\<close> by simp
      qed
    qed
  next
    case False
    let ?acc' = "acc @ (if acc \<noteq> [] \<and> isalnum (last acc) then [j] else [])"
    have step: "flatten_loop (c # cs) j acc = flatten_loop cs j ?acc'" using False by simp
    have flag: "\<not> (?acc' \<noteq> [] \<and> isalnum (last ?acc'))" using j by auto
    have nPc: "\<not> P c" using False P by simp
    have IH: "flatten_loop cs j ?acc' = ?acc' @ join_runs j (runs P cs)
         @ (if runs P cs \<noteq> [] \<and> \<not> isalnum (last cs) then [j] else [])"
      using "2.IH"(2)[OF nPc P, of ?acc'] j by (simp del: flatten_loop.simps)
    have R: "runs P (c # cs) = runs P cs" using nPc by simp
    have ne: "runs P cs \<noteq> [] \<Longrightarrow> cs \<noteq> []" by (auto simp: runs.simps(1))
    have hdc: "hd (c # cs) = c" by simp
    have lastc: "runs P cs \<noteq> [] \<Longrightarrow> last (c # cs) = last cs" using ne by simp
    show ?thesis
    proof (cases "runs P cs = []")
      case True
      then show ?thesis unfolding step IH R hdc using False by simp
    next
      case nonempty: False
      then show ?thesis unfolding step IH R hdc using False lastc[OF nonempty] by simp
    qed
  qed
qed

lemma flatten_loop_runs:
  "\<not> isalnum j \<Longrightarrow> flatten_loop inp j [] =
     join_runs j (runs isalnum inp)
       @ (if runs isalnum inp \<noteq> [] \<and> \<not> isalnum (last inp) then [j] else [])"
  using flatten_loop_runs_gen[of j isalnum inp "[]"] by simp

lemma join_runs_ends:
  assumes "R \<noteq> []" "\<forall>w\<in>set R. w \<noteq> [] \<and> (\<forall>c\<in>set w. P c)"
  shows "join_runs j R \<noteq> [] \<and> P (hd (join_runs j R)) \<and> P (last (join_runs j R))"
  using assms
proof (induction j R rule: join_runs.induct)
  case (1 j)
  then show ?case by simp
next
  case (2 j w)
  then show ?case by (simp add: hd_in_set last_in_set)
next
  case (3 j w v ws)
  then have "join_runs j (v # ws) \<noteq> [] \<and> P (last (join_runs j (v # ws)))" by simp
  moreover have "w \<noteq> [] \<and> P (hd w)" using "3.prems" by (simp add: hd_in_set)
  ultimately show ?case by simp
qed

lemma rstrip_keep: "s = [] \<or> last s \<noteq> j \<Longrightarrow> rstrip j s = s"
  by (cases s rule: rev_cases) (auto simp: rstrip_def)

lemma rstrip_snoc: "rstrip j (s @ [j]) = rstrip j s"
  by (simp add: rstrip_def)

lemma no_double_append:
  assumes "j \<notin> set w" "rest = [] \<or> hd rest \<noteq> j" "\<nexists>pre post. rest = pre @ j # j # post"
  shows "\<nexists>pre post. w @ j # rest = pre @ j # j # post"
  using assms(1)
proof (induction w)
  case Nil
  show ?case
  proof
    assume "\<exists>pre post. [] @ j # rest = pre @ j # j # post"
    then obtain pre post where e: "j # rest = pre @ j # j # post" by auto
    show False
    proof (cases pre)
      case Nil
      then show ?thesis using e assms(2) by auto
    next
      case (Cons a pre')
      then show ?thesis using e assms(3) by auto
    qed
  qed
next
  case (Cons a w)
  show ?case
  proof
    assume "\<exists>pre post. (a # w) @ j # rest = pre @ j # j # post"
    then obtain pre post where e: "a # w @ j # rest = pre @ j # j # post" by auto
    show False
    proof (cases pre)
      case Nil
      then show ?thesis using e Cons.prems by auto
    next
      case (Cons b pre')
      then have "w @ j # rest = pre' @ j # j # post" using e by simp
      then show ?thesis using Cons.IH Cons.prems by auto
    qed
  qed
qed

lemma no_double_run: "j \<notin> set w \<Longrightarrow> \<nexists>pre post. w = pre @ j # j # post"
  by auto

lemma join_runs_no_double:
  assumes "\<forall>w\<in>set R. w \<noteq> [] \<and> (\<forall>c\<in>set w. P c)" "\<not> P j"
  shows "\<nexists>pre post. join_runs j R = pre @ j # j # post"
  using assms
proof (induction j R rule: join_runs.induct)
  case (1 j)
  then show ?case by simp
next
  case (2 j w)
  then have "j \<notin> set w" by auto
  then show ?case by (simp add: no_double_run)
next
  case (3 j w v ws)
  have jw: "j \<notin> set w" using "3.prems" by auto
  have ends: "join_runs j (v # ws) \<noteq> [] \<and> P (hd (join_runs j (v # ws)))"
    using join_runs_ends[of "v # ws" P j] "3.prems" by simp
  then have hd: "join_runs j (v # ws) = [] \<or> hd (join_runs j (v # ws)) \<noteq> j"
    using "3.prems"(2) by auto
  have nd: "\<nexists>pre post. join_runs j (v # ws) = pre @ j # j # post"
    using "3.IH" "3.prems" by simp
  show ?case using no_double_append[OF jw hd nd] by simp
qed

lemma flatten_ends:
  "runs isalnum s \<noteq> [] \<Longrightarrow>
     join_runs j (runs isalnum s) \<noteq> [] \<and> isalnum (hd (join_runs j (runs isalnum s)))
       \<and> isalnum (last (join_runs j (runs isalnum s)))"
  using join_runs_ends[of "runs isalnum s" isalnum j] runs_all by blast

lemma flatten_join_runs:
  assumes "\<not> isalnum j"
  shows "flatten s j = join_runs j (runs isalnum s)"
proof -
  let ?R = "runs isalnum s"
  have keep: "rstrip j (join_runs j ?R) = join_runs j ?R"
  proof (cases "?R = []")
    case True then show ?thesis by (simp add: rstrip_def)
  next
    case False
    then have "last (join_runs j ?R) \<noteq> j" using flatten_ends[of s j] assms by auto
    then show ?thesis by (simp add: rstrip_keep)
  qed
  show ?thesis
    unfolding flatten_def flatten_loop_runs[OF assms]
    by (cases "?R \<noteq> [] \<and> \<not> isalnum (last s)") (simp_all add: rstrip_snoc keep)
qed

text \<open>
  C4 (as amended). For every string \<open>s\<close> and every join character \<open>j\<close> that is not
  alphanumeric, \<open>flatten s j\<close> is the maximal alphanumeric runs of \<open>s\<close> with exactly
  one \<open>j\<close> between neighbours, leading and trailing runs of other characters dropped;
  it neither begins nor ends with \<open>j\<close> and has no two consecutive \<open>j\<close>.
\<close>

theorem flatten_runs:
  assumes "\<not> isalnum j"
  shows "flatten s j = join_runs j (runs isalnum s)
       \<and> (\<nexists>rest. flatten s j = j # rest)
       \<and> (\<nexists>front. flatten s j = front @ [j])
       \<and> (\<nexists>pre post. flatten s j = pre @ j # j # post)"
proof -
  let ?R = "runs isalnum s"
  have all: "\<forall>w\<in>set ?R. w \<noteq> [] \<and> (\<forall>c\<in>set w. isalnum c)" using runs_all by blast
  note ends = flatten_ends[of s j]
  note eq = flatten_join_runs[OF assms, of s]
  have a: "\<nexists>rest. flatten s j = j # rest"
  proof
    assume "\<exists>rest. flatten s j = j # rest"
    then obtain rest where r: "join_runs j ?R = j # rest" unfolding eq by blast
    then have "?R \<noteq> []" by auto
    then have "isalnum (hd (join_runs j ?R))" using ends by blast
    then show False using r assms by simp
  qed
  have b: "\<nexists>front. flatten s j = front @ [j]"
  proof
    assume "\<exists>front. flatten s j = front @ [j]"
    then obtain front where r: "join_runs j ?R = front @ [j]" unfolding eq by blast
    then have "?R \<noteq> []" by auto
    then have "isalnum (last (join_runs j ?R))" using ends by blast
    then show False using r assms by simp
  qed
  have c: "\<nexists>pre post. flatten s j = pre @ j # j # post"
    unfolding eq using join_runs_no_double[OF all assms] .
  show ?thesis using eq a b c by blast
qed

theorem flatten_runs_witness:
  "\<not> isalnum CHR '' '' \<and> flatten ''  Hello,  world!! '' CHR '' '' = ''Hello world''
   \<and> runs isalnum ''  Hello,  world!! '' = [''Hello'', ''world'']"
proof -
  have h: "\<not> isalnum CHR '' ''" by code_simp
  have r: "runs isalnum ''  Hello,  world!! '' = [''Hello'', ''world'']" by code_simp
  have "flatten ''  Hello,  world!! '' CHR '' ''
          = join_runs CHR '' '' (runs isalnum ''  Hello,  world!! '')"
    using flatten_runs[OF h, of "''  Hello,  world!! ''"] by blast
  then have "flatten ''  Hello,  world!! '' CHR '' '' = ''Hello world''"
    unfolding r by simp
  then show ?thesis using h r by blast
qed

text \<open>With an alphanumeric join character the claim fails: the join character is
  kept when it is read from the input, so the result can begin with it, and a run of
  two other characters after a letter gives two join characters.\<close>

theorem flatten_alnum_joinchar_counterexample:
  "(\<exists>rest. flatten ''xa'' CHR ''x'' = CHR ''x'' # rest)
   \<and> (\<exists>pre post. flatten ''a  b'' CHR ''x'' = pre @ CHR ''x'' # CHR ''x'' # post)"
proof -
  have 1: "flatten ''xa'' CHR ''x'' = ''xa''" by code_simp
  have 2: "flatten ''a  b'' CHR ''x'' = ''a'' @ CHR ''x'' # CHR ''x'' # ''b''" by code_simp
  show ?thesis using 1 2 by blast
qed

subsection \<open>The cluster key of a conflicting source\<close>

lemma sorted_last_max:
  "sorted (map f xs) \<Longrightarrow> x \<in> set xs \<Longrightarrow> f x \<le> f (last xs)"
proof (induction xs)
  case Nil
  then show ?case by simp
next
  case (Cons a xs)
  then show ?case by (cases xs) auto
qed

lemma last_filter_keep: "xs \<noteq> [] \<Longrightarrow> P (last xs) \<Longrightarrow> last (filter P xs) = last xs"
  by (induction xs rule: rev_induct) auto

lemma last_filter_split:
  "filter P ws \<noteq> [] \<Longrightarrow>
     \<exists>pre post. ws = pre @ last (filter P ws) # post \<and> (\<forall>x\<in>set post. \<not> P x)"
proof (induction ws rule: rev_induct)
  case Nil
  then show ?case by simp
next
  case (snoc y ys)
  show ?case
  proof (cases "P y")
    case True
    then have "ys @ [y] = ys @ last (filter P (ys @ [y])) # []" by simp
    then show ?thesis by (metis empty_iff list.set(1))
  next
    case False
    then have f: "filter P (ys @ [y]) = filter P ys" by simp
    then have "filter P ys \<noteq> []" using snoc.prems by simp
    then obtain pre post where
      "ys = pre @ last (filter P ys) # post" "\<forall>x\<in>set post. \<not> P x"
      using snoc.IH by blast
    then have "ys @ [y] = pre @ last (filter P (ys @ [y])) # (post @ [y])
        \<and> (\<forall>x\<in>set (post @ [y]). \<not> P x)"
      using False f by auto
    then show ?thesis by blast
  qed
qed

lemma last_sort_key_longest:
  assumes "ws \<noteq> []"
  shows "\<exists>pre w post. ws = pre @ w # post
           \<and> (\<forall>x\<in>set pre. f x \<le> f w) \<and> (\<forall>x\<in>set post. f x < f w)
           \<and> last (sort_key f ws) = w"
proof -
  let ?s = "sort_key f ws"
  let ?w = "last ?s"
  let ?P = "\<lambda>y. f y = f ?w"
  have ne: "?s \<noteq> []" using assms by (metis length_sort length_0_conv)
  have mx: "\<And>x. x \<in> set ws \<Longrightarrow> f x \<le> f ?w"
    using sorted_last_max[of f ?s] by simp
  have "last (filter ?P ?s) = ?w" using ne by (simp add: last_filter_keep)
  then have lw: "last (filter ?P ws) = ?w" by (simp add: sort_key_stable)
  have "?w \<in> set ws" using ne last_in_set[of ?s] by simp
  then have "filter ?P ws \<noteq> []" by (auto simp: filter_empty_conv)
  then obtain pre post where
    d: "ws = pre @ ?w # post" and p: "\<forall>x\<in>set post. f x \<noteq> f ?w"
    using last_filter_split[of ?P ws] lw by auto
  have "\<forall>x\<in>set pre. f x \<le> f ?w" using mx d by (metis in_set_conv_decomp append_Cons append_assoc Un_iff set_append)
  moreover have "\<forall>x\<in>set post. f x < f ?w"
  proof
    fix x assume x: "x \<in> set post"
    then have "x \<in> set ws" using d by (metis Un_iff list.set_intros(2) set_append)
    then have "f x \<le> f ?w" by (rule mx)
    then show "f x < f ?w" using p x by (simp add: order_less_le)
  qed
  ultimately show ?thesis using d by blast
qed

lemma set_update_subset: "set (AList.update k v al) \<subseteq> insert (k, v) (set al)"
  by (induction al) auto

lemma buildconflictmap_loop_entries:
  "(k, L) \<in> set (buildconflictmap_loop tm cm) \<Longrightarrow>
     (k, L) \<in> set cm \<or>
     (\<exists>s. (s, L) \<in> set tm \<and> k = flatten s CHR '' '' \<and> 1 < length k \<and> 1 < length L
          \<and> 1 < length (remdups (map fst L)))"
proof (induction tm cm rule: buildconflictmap_loop.induct)
  case (1 cm)
  then show ?case by simp
next
  case (2 s T rest cm)
  let ?flat = "flatten s CHR '' ''"
  show ?case
  proof (cases "length ?flat \<le> 1")
    case True
    then show ?thesis using 2 by (auto simp: Let_def)
  next
    case long: False
    show ?thesis
    proof (cases "1 < length T \<and> 1 < length (remdups (map fst T))")
      case True
      then have "(k, L) \<in> set (buildconflictmap_loop rest (AList.update ?flat T cm))"
        using "2.prems" long by (simp add: Let_def)
      then have "(k, L) \<in> set (AList.update ?flat T cm) \<or>
         (\<exists>s. (s, L) \<in> set rest \<and> k = flatten s CHR '' '' \<and> 1 < length k \<and> 1 < length L
          \<and> 1 < length (remdups (map fst L)))"
        using "2.IH"(2)[OF refl long] True by blast
      moreover have "(k, L) \<in> set (AList.update ?flat T cm) \<Longrightarrow> (k, L) = (?flat, T) \<or> (k, L) \<in> set cm"
        using set_update_subset[of ?flat T cm] by blast
      ultimately show ?thesis using long True by auto
    next
      case False
      then have "(k, L) \<in> set (buildconflictmap_loop rest cm)"
        using "2.prems" long by (auto simp: Let_def)
      then show ?thesis using "2.IH"(3)[OF refl long False] by auto
    qed
  qed
qed

lemma isalnum_not_isspace: "isalnum c \<Longrightarrow> \<not> isspace c"
  by (auto simp add: isalnum_def isspace_def ascii_uppercase_def ascii_lowercase_def
      digits_def whitespace_def)

lemma not_isalnum_space: "\<not> isalnum CHR '' ''"
  by (simp add: isalnum_def ascii_uppercase_def ascii_lowercase_def digits_def)

lemma split_flatten_nonempty:
  assumes "1 < length (flatten s CHR '' '')"
  shows "split (flatten s CHR '' '') \<noteq> []"
proof -
  let ?k = "flatten s CHR '' ''"
  have eq: "?k = join_runs CHR '' '' (runs isalnum s)"
    by (rule flatten_join_runs[OF not_isalnum_space])
  have "runs isalnum s \<noteq> []" using assms unfolding eq by auto
  then have "?k \<noteq> [] \<and> isalnum (hd ?k)" using flatten_ends[of s "CHR '' ''"] unfolding eq by blast
  then have "hd ?k \<in> set ?k \<and> \<not> isspace (hd ?k)" by (simp add: isalnum_not_isspace)
  then show ?thesis unfolding split_def runs_empty_iff by blast
qed

lemma clusterkey_last_longest:
  assumes "split src \<noteq> []"
  shows "\<exists>pre w post. split src = pre @ w # post
           \<and> (\<forall>x\<in>set pre. length x \<le> length w) \<and> (\<forall>x\<in>set post. length x < length w)
           \<and> clusterkey src = Inr w"
proof -
  have ne: "sort_key length (split src) \<noteq> []"
    using assms by (metis length_sort length_0_conv)
  show ?thesis
    using last_sort_key_longest[OF assms, of length] ne
    by (simp add: clusterkey_def Let_def)
qed

text \<open>
  C2 (as amended). For every conflicting source \<open>k\<close> of the conflict map, the
  re-clustering step splits it into its whitespace-delimited words and takes as cluster
  key the longest word; among words of equal length it takes the one met last from
  the left: no word is longer than the key and every word after it is strictly
  shorter. The lookup \<^verbatim>\<open>words[-1]\<close> does not raise on such a source.
\<close>

theorem conflict_clusterkey:
  assumes "(k, L) \<in> set (buildconflictmap tm)"
  shows "\<exists>pre w post. split k = pre @ w # post
           \<and> (\<forall>x\<in>set pre. length x \<le> length w) \<and> (\<forall>x\<in>set post. length x < length w)
           \<and> clusterkey k = Inr w
           \<and> cluster ((k, L) # rest) reducedmap = cluster rest (setdefault_extend w L reducedmap)"
proof -
  obtain s where "k = flatten s CHR '' ''" "1 < length k"
    using buildconflictmap_loop_entries[of k L tm "[]"] assms
    by (auto simp: buildconflictmap_def)
  then have "split k \<noteq> []" using split_flatten_nonempty by blast
  then obtain pre w post where
    "split k = pre @ w # post" "\<forall>x\<in>set pre. length x \<le> length w"
    "\<forall>x\<in>set post. length x < length w" "clusterkey k = Inr w"
    using clusterkey_last_longest by blast
  then show ?thesis by (intro exI[of _ pre] exI[of _ w] exI[of _ post]) simp
qed

theorem conflict_clusterkey_witness:
  "(''menu file edit'', open_list) \<in> set (buildconflictmap [(''menu: file, edit'', open_list)])
   \<and> split ''menu file edit'' = [''menu'', ''file'', ''edit'']
   \<and> (\<exists>pre post. split ''menu file edit'' = pre @ ''edit'' # post)
   \<and> clusterkey ''menu file edit'' = Inr ''edit''"
proof -
  have m: "(''menu file edit'', open_list) \<in> set (buildconflictmap [(''menu: file, edit'', open_list)])"
    by code_simp
  have s: "split ''menu file edit'' = [''menu'', ''file'', ''edit'']" by code_simp
  have c: "clusterkey ''menu file edit'' = Inr ''edit''" by code_simp
  obtain pre w post where
    d: "split ''menu file edit'' = pre @ w # post" and k: "clusterkey ''menu file edit'' = Inr w"
    using conflict_clusterkey[OF m] by blast
  have "w = ''edit''" using k c by simp
  then have "\<exists>pre post. split ''menu file edit'' = pre @ ''edit'' # post" using d by blast
  then show ?thesis using m s c by blast
qed

text \<open>The claim as written, with ties going to the word met first, fails on a source
  with two longest words: the stable sort by length keeps \<^verbatim>\<open>menu\<close> before \<^verbatim>\<open>file\<close>,
  and the last element is taken.\<close>

theorem clusterkey_first_longest_counterexample:
  "split ''menu file'' = [''menu'', ''file'']
   \<and> spec_clusterkey ''menu file'' = Some ''menu''
   \<and> clusterkey ''menu file'' = Inr ''file''"
  by code_simp

subsection \<open>Folding one plural\<close>

lemma filter_single:
  "distinct xs \<Longrightarrow> x \<in> set xs \<Longrightarrow> (\<forall>y\<in>set xs. P y \<longleftrightarrow> y = x) \<Longrightarrow> filter P xs = [x]"
proof (induction xs)
  case Nil
  then show ?case by simp
next
  case (Cons a xs)
  show ?case
  proof (cases "a = x")
    case True
    then have "\<forall>y\<in>set xs. \<not> P y" using Cons.prems by auto
    then have "filter P xs = []" by (simp add: filter_empty_conv)
    then show ?thesis using True Cons.prems by simp
  next
    case False
    then show ?thesis using Cons by auto
  qed
qed

lemma find_plurals_single:
  assumes "distinct (map fst rm)" "w \<in> fst ` set rm" "w @ ''s'' \<in> fst ` set rm"
    "\<forall>v. v \<in> fst ` set rm \<and> v @ ''s'' \<in> fst ` set rm \<longrightarrow> v = w"
  shows "find_plurals rm = [(w, w @ ''s'')]"
proof -
  have mem: "w \<in> set (map fst rm)" using assms(2) by simp
  have only: "\<forall>y\<in>set (map fst rm). (y @ ''s'' \<in> set (map fst rm)) \<longleftrightarrow> y = w"
  proof (intro ballI iffI)
    fix y assume "y \<in> set (map fst rm)" "y @ ''s'' \<in> set (map fst rm)"
    then have "y \<in> fst ` set rm \<and> y @ ''s'' \<in> fst ` set rm" by simp
    then show "y = w" using assms(4) by blast
  next
    fix y assume "y = w"
    then show "y @ ''s'' \<in> set (map fst rm)" using assms(3) by simp
  qed
  have "filter (\<lambda>word. word @ ''s'' \<in> set (map fst rm)) (map fst rm) = [w]"
    using assms(1) mem only by (rule filter_single)
  then show ?thesis by (simp add: find_plurals_def)
qed

lemma dom_delete: "fst ` set (AList.delete k al) = fst ` set al - {k}"
  by (force simp: AList.delete_eq)

lemma map_of_key: "map_of al k = Some v \<Longrightarrow> k \<in> fst ` set al"
  by (metis map_of_SomeD fst_conv image_eqI)

text \<open>
  C9. If \<^verbatim>\<open>file\<close> and \<^verbatim>\<open>files\<close> are keys of the reduced map and are its only
  pair of a key and the same key followed by \<^verbatim>\<open>s\<close>, then the folding pass ends
  without error, the key \<^verbatim>\<open>files\<close> is gone and every other key stays, \<^verbatim>\<open>file\<close>
  holds its own list followed by the list of \<^verbatim>\<open>files\<close>, and the other keys hold
  what they held.
\<close>

theorem fold_file_files:
  assumes "distinct (map fst rm)"
    and "map_of rm ''file'' = Some A" and "map_of rm ''files'' = Some B"
    and "\<forall>w. w \<in> fst ` set rm \<and> w @ ''s'' \<in> fst ` set rm \<longrightarrow> w = ''file''"
  shows "\<exists>rm'. reduce_plurals (find_plurals rm) rm = Inr rm'
           \<and> map_of rm' ''file'' = Some (A @ B)
           \<and> fst ` set rm' = fst ` set rm - {''files''}
           \<and> (\<forall>k. k \<noteq> ''file'' \<and> k \<noteq> ''files'' \<longrightarrow> map_of rm' k = map_of rm k)
           \<and> distinct (map fst rm')"
proof -
  let ?rm' = "AList.update ''file'' (A @ B) (AList.delete ''files'' rm)"
  have k1: "''file'' \<in> fst ` set rm" using assms(2) by (rule map_of_key)
  have k2: "''file'' @ ''s'' \<in> fst ` set rm" using map_of_key[OF assms(3)] by simp
  have fp: "find_plurals rm = [(''file'', ''file'' @ ''s'')]"
    using find_plurals_single[OF assms(1) k1 k2 assms(4)] .
  have run: "reduce_plurals (find_plurals rm) rm = Inr ?rm'"
    unfolding fp using assms(2,3) by simp
  have m1: "map_of ?rm' ''file'' = Some (A @ B)" by (simp add: update_conv')
  have keys: "fst ` set ?rm' = fst ` set rm - {''files''}"
    unfolding dom_update dom_delete using k1 by auto
  have m3: "\<forall>k. k \<noteq> ''file'' \<and> k \<noteq> ''files'' \<longrightarrow> map_of ?rm' k = map_of rm k"
    by (simp add: update_conv' delete_conv')
  have d: "distinct (map fst ?rm')" using assms(1) by (simp add: distinct_update distinct_delete)
  show ?thesis using run m1 keys m3 d by blast
qed

theorem fold_file_files_witness:
  "distinct (map fst menu_reducedmap)
   \<and> map fst menu_reducedmap = [''file'', ''menu'', ''files'']
   \<and> (\<exists>rm'. reduce_plurals (find_plurals menu_reducedmap) menu_reducedmap = Inr rm'
         \<and> map fst rm' = [''file'', ''menu'']
         \<and> map_of rm' ''file''
             = Some [(''Datei'', mk_unit ''file'' ''Datei'', ''A.po''),
                     (''Akte'', mk_unit ''file'' ''Akte'', ''B.po''),
                     (''Dateien'', mk_unit ''files'' ''Dateien'', ''A.po''),
                     (''Akten'', mk_unit ''files'' ''Akten'', ''B.po'')])"
proof -
  let ?A = "[(''Datei'', mk_unit ''file'' ''Datei'', ''A.po''),
             (''Akte'', mk_unit ''file'' ''Akte'', ''B.po'')]"
  let ?B = "[(''Dateien'', mk_unit ''files'' ''Dateien'', ''A.po''),
             (''Akten'', mk_unit ''files'' ''Akten'', ''B.po'')]"
  have d: "distinct (map fst menu_reducedmap)" by code_simp
  have ks: "map fst menu_reducedmap = [''file'', ''menu'', ''files'']" by code_simp
  have a: "map_of menu_reducedmap ''file'' = Some ?A" by code_simp
  have b: "map_of menu_reducedmap ''files'' = Some ?B" by code_simp
  have "set (map fst menu_reducedmap) = {''file'', ''menu'', ''files''}"
    unfolding ks by simp
  then have keyset: "fst ` set menu_reducedmap = {''file'', ''menu'', ''files''}" by simp
  have only: "\<forall>w. w \<in> fst ` set menu_reducedmap \<and> w @ ''s'' \<in> fst ` set menu_reducedmap
                 \<longrightarrow> w = ''file''"
  proof (intro allI impI)
    fix w assume a: "w \<in> fst ` set menu_reducedmap \<and> w @ ''s'' \<in> fst ` set menu_reducedmap"
    then consider "w = ''file''" | "w = ''menu''" | "w = ''files''"
      unfolding keyset by blast
    then show "w = ''file''"
    proof cases
      case 1
      then show ?thesis .
    next
      case 2
      then have "''menus'' \<in> {''file'', ''menu'', ''files''}" using a unfolding keyset by simp
      then show ?thesis by simp
    next
      case 3
      then have "''filess'' \<in> {''file'', ''menu'', ''files''}" using a unfolding keyset by simp
      then show ?thesis by simp
    qed
  qed
  from fold_file_files[OF d a b only] obtain rm' where
    all: "reduce_plurals (find_plurals menu_reducedmap) menu_reducedmap = Inr rm'
           \<and> map_of rm' ''file'' = Some (?A @ ?B)
           \<and> fst ` set rm' = fst ` set menu_reducedmap - {''files''}
           \<and> (\<forall>k. k \<noteq> ''file'' \<and> k \<noteq> ''files'' \<longrightarrow> map_of rm' k = map_of menu_reducedmap k)
           \<and> distinct (map fst rm')" ..
  note r = all[THEN conjunct1] and f = all[THEN conjunct2, THEN conjunct1]
  have "reduce_plurals (find_plurals menu_reducedmap) menu_reducedmap
          = Inr [(''file'', ?A @ ?B), (''menu'', [(''Menue'', mk_unit ''menu'' ''Menue'', ''A.po''),
                  (''Karte'', mk_unit ''menu'' ''Karte'', ''B.po'')])]"
    by code_simp
  then have "map fst rm' = [''file'', ''menu'']" using r by simp
  then show ?thesis using d ks r f by simp
qed

subsection \<open>Input files that fail\<close>













subsection \<open>Inverted runs\<close>

lemma clean_invert [simp]: "clean s (opts\<lparr>invert := b\<rparr>) = clean s opts"
  by (simp add: clean_def)

lemma swap_unit_simps [simp]:
  "source (swap_unit u) = target u" "target (swap_unit u) = source u"
  "isheader (swap_unit u) = isheader u" "istranslated (swap_unit u) = istranslated u"
  "hasplural (swap_unit u) = hasplural u" "othercomments (swap_unit u) = othercomments u"
  by (simp_all add: swap_unit_def)

lemma map_of_swap_dict: "map_of (swap_dict d) k = map_option (map swap_translation) (map_of d k)"
  by (induction d) (auto simp: swap_dict_def)

lemma keys_swap_dict [simp]: "map fst (swap_dict d) = map fst d"
  by (induction d) (auto simp: swap_dict_def)

lemma length_swap_dict [simp]: "length (swap_dict d) = length d"
  by (simp add: swap_dict_def)

lemma update_swap_dict:
  "AList.update k (map swap_translation v) (swap_dict d) = swap_dict (AList.update k v d)"
  by (induction d) (auto simp: swap_dict_def)

lemma delete_swap_dict: "AList.delete k (swap_dict d) = swap_dict (AList.delete k d)"
  by (induction d) (auto simp: swap_dict_def)

lemma setdefault_extend_swap_dict:
  "setdefault_extend k (map swap_translation xs) (swap_dict d)
     = swap_dict (setdefault_extend k xs d)"
  by (cases "map_of d k")
     (simp_all add: setdefault_extend_def map_of_swap_dict update_swap_dict[symmetric])

lemma processunits_swap:
  "processunits (opts\<lparr>invert := False\<rparr>) path (map (map_sum id swap_unit) units) (swap_dict tm)
     = map_prod swap_dict id (processunits (opts\<lparr>invert := True\<rparr>) path units tm)"
proof (induction units arbitrary: tm)
  case Nil
  then show ?case by simp
next
  case (Cons a units)
  show ?case
  proof (cases a)
    case (Inl e)
    then show ?thesis by simp
  next
    case (Inr u)
    have "setdefault_extend k [(t, swap_unit u, path)] (swap_dict tm)
          = swap_dict (setdefault_extend k [(t, u, path)] tm)" for k t
      using setdefault_extend_swap_dict[of k "[(t, u, path)]" tm]
      by (simp add: swap_translation_def)
    then show ?thesis using Cons.IH Inr by (simp add: Let_def)
  qed
qed

lemma processfile_swap:
  "processfile (opts\<lparr>invert := False\<rparr>) path (map_sum id (map (map_sum id swap_unit)) f)
       (swap_dict tm)
     = map_prod swap_dict id (processfile (opts\<lparr>invert := True\<rparr>) path f tm)"
  by (cases f) (simp_all add: processfile_def processunits_swap)

lemma process_files_swap:
  "process_files (opts\<lparr>invert := False\<rparr>) (swap_catalogs inputfiles)
       \<lparr>textmap = swap_dict tm, warnings = ws\<rparr>
     = map_sum id (\<lambda>st'. \<lparr>textmap = swap_dict (textmap st'), warnings = warnings st'\<rparr>)
         (process_files (opts\<lparr>invert := True\<rparr>) inputfiles \<lparr>textmap = tm, warnings = ws\<rparr>)"
proof (induction inputfiles arbitrary: tm ws)
  case Nil
  then show ?case by (simp add: swap_catalogs_def)
next
  case (Cons a rest)
  obtain p f where a: "a = (p, f)" by (cases a)
  have sc: "swap_catalogs ((p, f) # rest)
      = (p, map_sum id (map (map_sum id swap_unit)) f) # swap_catalogs rest"
    by (simp add: swap_catalogs_def)
  obtain tm' r where pf: "processfile (opts\<lparr>invert := True\<rparr>) p f tm = (tm', r)"
    by (cases "processfile (opts\<lparr>invert := True\<rparr>) p f tm")
  have pf': "processfile (opts\<lparr>invert := False\<rparr>) p (map_sum id (map (map_sum id swap_unit)) f)
       (swap_dict tm) = (swap_dict tm', r)"
    using processfile_swap[of opts p f tm] pf by simp
  show ?case unfolding a sc using Cons.IH pf pf' by (cases r) simp_all
qed

lemma fst_swap_translation [simp]: "fst \<circ> swap_translation = fst"
  by (rule ext) (simp add: swap_translation_def split: prod.splits)

lemma buildconflictmap_loop_swap:
  "buildconflictmap_loop (swap_dict tm) (swap_dict cm) = swap_dict (buildconflictmap_loop tm cm)"
proof (induction tm cm rule: buildconflictmap_loop.induct)
  case (1 cm)
  then show ?case by (simp add: swap_dict_def)
next
  case (2 s T rest cm)
  have sd: "swap_dict ((s, T) # rest) = (s, map swap_translation T) # swap_dict rest"
    by (simp add: swap_dict_def)
  show ?case unfolding sd using 2
    by (simp add: Let_def update_swap_dict)
qed

lemma buildconflictmap_swap: "buildconflictmap (swap_dict tm) = swap_dict (buildconflictmap tm)"
  using buildconflictmap_loop_swap[of tm "[]"] by (simp add: buildconflictmap_def swap_dict_def)

lemma cluster_swap:
  "cluster (swap_dict cm) (swap_dict rm) = map_sum id swap_dict (cluster cm rm)"
proof (induction cm rm rule: cluster.induct)
  case (1 rm)
  then show ?case by (simp add: swap_dict_def)
next
  case (2 s T rest rm)
  have sd: "swap_dict ((s, T) # rest) = (s, map swap_translation T) # swap_dict rest"
    by (simp add: swap_dict_def)
  show ?case unfolding sd using 2
    by (cases "clusterkey s") (simp_all add: setdefault_extend_swap_dict)
qed

lemma find_plurals_swap: "find_plurals (swap_dict rm) = find_plurals rm"
  by (simp add: find_plurals_def)

lemma reduce_plurals_swap:
  "reduce_plurals pl (swap_dict rm) = map_sum id swap_dict (reduce_plurals pl rm)"
proof (induction pl rm rule: reduce_plurals.induct)
  case (1 rm)
  then show ?case by simp
next
  case (2 word pluralword rest rm)
  show ?case
  proof (cases "map_of rm word")
    case None
    then show ?thesis by (simp add: map_of_swap_dict)
  next
    case (Some ws)
    show ?thesis
    proof (cases "map_of rm pluralword")
      case None
      then show ?thesis using Some by (simp add: map_of_swap_dict)
    next
      case ps: (Some ps)
      have "AList.update word (map swap_translation ws @ map swap_translation ps)
              (AList.delete pluralword (swap_dict rm))
            = swap_dict (AList.update word (ws @ ps) (AList.delete pluralword rm))"
        using update_swap_dict[of word "ws @ ps" "AList.delete pluralword rm"]
        by (simp add: delete_swap_dict)
      then show ?thesis using Some ps "2.IH"[OF Some ps] by (simp add: map_of_swap_dict)
    qed
  qed
qed

lemma tag_unit_swap: "tag_unit (swap_translation t) = swap_unit (tag_unit t)"
  by (cases t) (simp add: tag_unit_def swap_translation_def swap_unit_def)

lemma conflictfile_swap:
  "map (conflictfile opts) (swap_dict rm)
     = map (\<lambda>(path, units). (path, map swap_unit units)) (map (conflictfile opts) rm)"
  by (induction rm) (auto simp: swap_dict_def conflictfile_def tag_unit_swap)

lemma conflictfile_invert [simp]: "conflictfile (opts\<lparr>invert := b\<rparr>) = conflictfile opts"
  by (rule ext) (simp add: conflictfile_def split: prod.splits)

lemma outputconflicts_swap:
  "outputconflicts (opts\<lparr>invert := False\<rparr>) (swap_dict tm) (swap_dict cm)
     = map_sum id (\<lambda>w. \<lparr>summary = summary w, reduced = swap_dict (reduced w),
                         files = map (\<lambda>(path, units). (path, map swap_unit units)) (files w)\<rparr>)
         (outputconflicts (opts\<lparr>invert := True\<rparr>) tm cm)"
proof -
  have c: "cluster (swap_dict cm) [] = map_sum id swap_dict (cluster cm [])"
    using cluster_swap[of cm "[]"] by (simp add: swap_dict_def)
  show ?thesis
  proof (cases "cluster cm []")
    case (Inl e)
    then show ?thesis using c by (simp add: outputconflicts_def)
  next
    case (Inr rm)
    then show ?thesis using c
      by (cases "reduce_plurals (find_plurals rm) rm")
         (simp_all add: outputconflicts_def find_plurals_swap reduce_plurals_swap
            conflictfile_swap)
  qed
qed

text \<open>
  C8 (as amended). For all input catalogs and options, the run without \<^verbatim>\<open>--invert\<close> on
  the catalogs with source and target swapped in every unit builds the index of the
  run with \<^verbatim>\<open>--invert\<close> on the catalogs as they are, with the same keys, cleaned
  targets, paths, order and warnings, except that each entry holds the swapped unit
  where the inverted run holds the unit itself. The conflict map, the reduced map and
  the catalogs written agree in the same way, and the two runs raise the same
  exceptions.
\<close>

theorem invert_is_swapped_catalogs:
  "process_files (opts\<lparr>invert := False\<rparr>) (swap_catalogs inputfiles)
       \<lparr>textmap = [], warnings = []\<rparr>
     = map_sum id (\<lambda>st. \<lparr>textmap = swap_dict (textmap st), warnings = warnings st\<rparr>)
         (process_files (opts\<lparr>invert := True\<rparr>) inputfiles \<lparr>textmap = [], warnings = []\<rparr>)
   \<and> buildconflictmap (swap_dict tm) = swap_dict (buildconflictmap tm)
   \<and> recursiveprocess (opts\<lparr>invert := False\<rparr>) (swap_catalogs inputfiles)
     = map_sum id swap_run (recursiveprocess (opts\<lparr>invert := True\<rparr>) inputfiles)"
proof -
  have pf: "process_files (opts\<lparr>invert := False\<rparr>) (swap_catalogs inputfiles)
       \<lparr>textmap = [], warnings = []\<rparr>
     = map_sum id (\<lambda>st. \<lparr>textmap = swap_dict (textmap st), warnings = warnings st\<rparr>)
         (process_files (opts\<lparr>invert := True\<rparr>) inputfiles \<lparr>textmap = [], warnings = []\<rparr>)"
    using process_files_swap[of opts inputfiles "[]" "[]"] by (simp add: swap_dict_def)
  have rp: "recursiveprocess (opts\<lparr>invert := False\<rparr>) (swap_catalogs inputfiles)
     = map_sum id swap_run (recursiveprocess (opts\<lparr>invert := True\<rparr>) inputfiles)"
  proof (cases "process_files (opts\<lparr>invert := True\<rparr>) inputfiles \<lparr>textmap = [], warnings = []\<rparr>")
    case (Inl e)
    then show ?thesis using pf by (simp add: recursiveprocess_def)
  next
    case (Inr st)
    then show ?thesis using pf
      by (cases "outputconflicts (opts\<lparr>invert := True\<rparr>) (textmap st) (buildconflictmap (textmap st))")
         (simp_all add: recursiveprocess_def buildconflictmap_swap outputconflicts_swap swap_run_def)
  qed
  show ?thesis using pf buildconflictmap_swap rp by blast
qed

text \<open>The two indexes are not the same: the inverted run stores the unit of the
  catalog, the other run the swapped unit.\<close>

theorem invert_same_index_counterexample:
  "process_files (default_options\<lparr>invert := True\<rparr>)
       [(''A.po'', parsed [mk_unit ''Open'' ''Abrir''])] \<lparr>textmap = [], warnings = []\<rparr>
     = Inr \<lparr>textmap = [(''Abrir'', [(''Open'', mk_unit ''Open'' ''Abrir'', ''A.po'')])],
            warnings = []\<rparr>
   \<and> swap_catalogs [(''A.po'', parsed [mk_unit ''Open'' ''Abrir''])]
     = [(''A.po'', parsed [mk_unit ''Abrir'' ''Open''])]
   \<and> process_files (default_options\<lparr>invert := False\<rparr>)
       [(''A.po'', parsed [mk_unit ''Abrir'' ''Open''])] \<lparr>textmap = [], warnings = []\<rparr>
     = Inr \<lparr>textmap = [(''Abrir'', [(''Open'', mk_unit ''Abrir'' ''Open'', ''A.po'')])],
            warnings = []\<rparr>
   \<and> mk_unit ''Open'' ''Abrir'' \<noteq> mk_unit ''Abrir'' ''Open''
   \<and> process_files (default_options\<lparr>invert := True\<rparr>)
       [(''A.po'', parsed [mk_unit ''Open'' ''Abrir''])] \<lparr>textmap = [], warnings = []\<rparr>
     \<noteq> process_files (default_options\<lparr>invert := False\<rparr>)
         (swap_catalogs [(''A.po'', parsed [mk_unit ''Open'' ''Abrir''])])
         \<lparr>textmap = [], warnings = []\<rparr>"
  by code_simp

subsection \<open>Where the written units come from\<close>

lemma entries_simps [simp]:
  "entries [] = []" "entries ((k, L) # d) = L @ entries d"
  by (simp_all add: entries_def)

lemma mset_setdefault_extend:
  "mset (entries (setdefault_extend k xs d)) = mset (entries d) + mset xs"
proof (induction d)
  case Nil
  then show ?case by (simp add: setdefault_extend_def)
next
  case (Cons a d)
  obtain k' v where a: "a = (k', v)" by (cases a)
  show ?case
  proof (cases "k' = k")
    case True
    then show ?thesis using a by (simp add: setdefault_extend_def)
  next
    case False
    then have "setdefault_extend k xs (a # d) = a # setdefault_extend k xs d"
      using a by (simp add: setdefault_extend_def)
    then show ?thesis using Cons.IH a by simp
  qed
qed

lemma set_setdefault_extend:
  "set (entries (setdefault_extend k xs d)) = set (entries d) \<union> set xs"
  using mset_setdefault_extend[of k xs d, THEN arg_cong, of set_mset] by simp

lemma distinct_setdefault_extend:
  "distinct (map fst d) \<Longrightarrow> distinct (map fst (setdefault_extend k xs d))"
  by (simp add: setdefault_extend_def distinct_update)

lemma processunits_entries:
  assumes "\<forall>e\<in>set (entries tm). P e" and "\<forall>u t. Inr u \<in> set units \<longrightarrow> P (t, u, path)"
  shows "\<forall>e\<in>set (entries (fst (processunits opts path units tm))). P e"
  using assms
proof (induction units arbitrary: tm)
  case Nil
  then show ?case by simp
next
  case (Cons a units)
  have rest: "\<forall>u t. Inr u \<in> set units \<longrightarrow> P (t, u, path)" using Cons.prems(2) by simp
  show ?case
  proof (cases a)
    case (Inl e)
    then show ?thesis using Cons.prems(1) by simp
  next
    case (Inr u)
    have Pu: "P (t, u, path)" for t using Cons.prems(2) Inr by simp
    have ext: "\<forall>e\<in>set (entries (setdefault_extend k [(t, u, path)] tm)). P e" for k t
      using Cons.prems(1) Pu by (simp add: set_setdefault_extend)
    show ?thesis
      using Inr Cons.IH[OF Cons.prems(1) rest] Cons.IH[OF ext rest]
      by (simp add: Let_def)
  qed
qed

lemma processfile_entries:
  assumes "\<forall>e\<in>set (entries tm). P e"
    and "\<forall>units u t. f = Inr units \<and> Inr u \<in> set units \<longrightarrow> P (t, u, path)"
  shows "\<forall>e\<in>set (entries (fst (processfile opts path f tm))). P e"
proof (cases f)
  case (Inl e)
  then show ?thesis using assms(1) by (simp add: processfile_def)
next
  case (Inr units)
  then show ?thesis
    using processunits_entries[of tm P units path opts] assms by (simp add: processfile_def)
qed

lemma process_files_entries:
  assumes "process_files opts inputfiles st = Inr st'"
    and "\<forall>e\<in>set (entries (textmap st)). P e"
    and "\<forall>path units u t. (path, Inr units) \<in> set inputfiles \<and> Inr u \<in> set units \<longrightarrow> P (t, u, path)"
  shows "\<forall>e\<in>set (entries (textmap st')). P e"
  using assms
proof (induction inputfiles arbitrary: st)
  case Nil
  then show ?case by simp
next
  case (Cons a inputfiles)
  obtain p f where a: "a = (p, f)" by (cases a)
  obtain tm' r where pf: "processfile opts p f (textmap st) = (tm', r)"
    by (cases "processfile opts p f (textmap st)")
  have here: "\<forall>units u t. f = Inr units \<and> Inr u \<in> set units \<longrightarrow> P (t, u, p)"
    using Cons.prems(3) a by auto
  have tm': "\<forall>e\<in>set (entries tm'). P e"
    using processfile_entries[OF Cons.prems(2) here, of opts] pf by simp
  have rest: "\<forall>path units u t. (path, Inr units) \<in> set inputfiles \<and> Inr u \<in> set units
      \<longrightarrow> P (t, u, path)"
    using Cons.prems(3) by auto
  show ?case
  proof (cases r)
    case None
    then have "process_files opts inputfiles (st\<lparr>textmap := tm'\<rparr>) = Inr st'"
      using Cons.prems(1) a pf by simp
    then show ?thesis using Cons.IH[of "st\<lparr>textmap := tm'\<rparr>"] tm' rest by simp
  next
    case (Some e)
    then have "process_files opts inputfiles
        (st\<lparr>textmap := tm', warnings := warnings st @ [''Error processing: input '' @ p]\<rparr>)
        = Inr st'"
      using Cons.prems(1) a pf by (simp split: if_splits)
    then show ?thesis
      using Cons.IH[of "st\<lparr>textmap := tm',
          warnings := warnings st @ [''Error processing: input '' @ p]\<rparr>"] tm' rest
      by simp
  qed
qed

lemma in_entries: "e \<in> set (entries d) \<longleftrightarrow> (\<exists>k L. (k, L) \<in> set d \<and> e \<in> set L)"
  by (force simp: entries_def)

lemma conflict_entries:
  "e \<in> set (entries (buildconflictmap tm)) \<Longrightarrow> e \<in> set (entries tm)"
  unfolding in_entries buildconflictmap_def
  using buildconflictmap_loop_entries[of _ _ tm "[]"] by fastforce

lemma cluster_mset:
  "cluster cm rm = Inr rm' \<Longrightarrow> mset (entries rm') = mset (entries rm) + mset (entries cm)"
proof (induction cm rm rule: cluster.induct)
  case (1 rm)
  then show ?case by simp
next
  case (2 s T rest rm)
  then obtain w where w: "clusterkey s = Inr w"
    by (cases "clusterkey s") simp_all
  then have "cluster rest (setdefault_extend w T rm) = Inr rm'" using "2.prems" by simp
  then have "mset (entries rm') = mset (entries (setdefault_extend w T rm)) + mset (entries rest)"
    using "2.IH"[OF w] by simp
  then show ?case by (simp add: mset_setdefault_extend)
qed

lemma cluster_distinct:
  "cluster cm rm = Inr rm' \<Longrightarrow> distinct (map fst rm) \<Longrightarrow> distinct (map fst rm')"
proof (induction cm rm rule: cluster.induct)
  case (1 rm)
  then show ?case by simp
next
  case (2 s T rest rm)
  then obtain w where w: "clusterkey s = Inr w"
    by (cases "clusterkey s") simp_all
  then have "cluster rest (setdefault_extend w T rm) = Inr rm'" using "2.prems" by simp
  then show ?case using "2.IH"[OF w] "2.prems"(2) by (simp add: distinct_setdefault_extend)
qed

lemma cluster_total:
  "\<forall>k\<in>fst ` set cm. split k \<noteq> [] \<Longrightarrow> \<exists>rm'. cluster cm rm = Inr rm'"
proof (induction cm rm rule: cluster.induct)
  case (1 rm)
  then show ?case by simp
next
  case (2 s T rest rm)
  have "split s \<noteq> []" using "2.prems" by simp
  then obtain w where w: "clusterkey s = Inr w" using clusterkey_last_longest by blast
  have "\<forall>k\<in>fst ` set rest. split k \<noteq> []" using "2.prems" by simp
  then show ?case using "2.IH"[OF w] w by simp
qed

lemma conflict_keys_split:
  "\<forall>k\<in>fst ` set (buildconflictmap tm). split k \<noteq> []"
proof
  fix k assume "k \<in> fst ` set (buildconflictmap tm)"
  then obtain L where "(k, L) \<in> set (buildconflictmap_loop tm [])"
    by (auto simp: buildconflictmap_def)
  then obtain s where "k = flatten s CHR '' ''" "1 < length k"
    using buildconflictmap_loop_entries[of k L tm "[]"] by auto
  then show "split k \<noteq> []" using split_flatten_nonempty by blast
qed

lemma mset_entries_delete:
  "distinct (map fst d) \<Longrightarrow> map_of d p = Some ps
     \<Longrightarrow> mset (entries d) = mset (entries (AList.delete p d)) + mset ps"
proof (induction d)
  case Nil
  then show ?case by simp
next
  case (Cons a d)
  obtain k v where a: "a = (k, v)" by (cases a)
  show ?case
  proof (cases "k = p")
    case True
    then have "p \<notin> fst ` set d" using Cons.prems(1) a by auto
    then have "AList.delete p d = d" by (rule delete_id)
    then show ?thesis using True a Cons.prems(2) by (simp add: AList.delete_eq)
  next
    case False
    then show ?thesis using Cons a by (auto simp: AList.delete_eq)
  qed
qed

lemma mset_entries_update:
  "map_of d w = Some ws
     \<Longrightarrow> mset (entries (AList.update w (ws @ ps) d)) = mset (entries d) + mset ps"
proof (induction d)
  case Nil
  then show ?case by simp
next
  case (Cons a d)
  obtain k v where a: "a = (k, v)" by (cases a)
  show ?case using Cons a by (cases "k = w") auto
qed

lemma reduce_plurals_mset:
  "reduce_plurals pl rm = Inr rm' \<Longrightarrow> distinct (map fst rm) \<Longrightarrow> \<forall>(w, p)\<in>set pl. w \<noteq> p
     \<Longrightarrow> mset (entries rm') = mset (entries rm) \<and> distinct (map fst rm')"
proof (induction pl rm rule: reduce_plurals.induct)
  case (1 rm)
  then show ?case by simp
next
  case (2 word pluralword rest rm)
  from "2.prems"(1) obtain ws where ws: "map_of rm word = Some ws"
    by (cases "map_of rm word") simp_all
  from "2.prems"(1) ws obtain ps where ps: "map_of rm pluralword = Some ps"
    by (cases "map_of rm pluralword") simp_all
  let ?rm = "AList.update word (ws @ ps) (AList.delete pluralword rm)"
  have ne: "word \<noteq> pluralword" using "2.prems"(3) by simp
  have run: "reduce_plurals rest ?rm = Inr rm'" using "2.prems"(1) ws ps by simp
  have d: "distinct (map fst ?rm)"
    using "2.prems"(2) by (simp add: distinct_update distinct_delete)
  have rest: "\<forall>(w, p)\<in>set rest. w \<noteq> p" using "2.prems"(3) by simp
  have "map_of (AList.delete pluralword rm) word = Some ws" using ws ne by simp
  then have "mset (entries ?rm) = mset (entries (AList.delete pluralword rm)) + mset ps"
    by (rule mset_entries_update)
  also have "\<dots> = mset (entries rm)"
    using mset_entries_delete[OF "2.prems"(2) ps] by simp
  finally show ?case using "2.IH"[OF ws ps run d rest] by simp
qed

lemma find_plurals_pairs: "\<forall>(w, p)\<in>set (find_plurals rm). w \<noteq> p"
  by (auto simp: find_plurals_def)

lemma entries_files:
  "concat (map snd (map (conflictfile opts) rm)) = map tag_unit (entries rm)"
  by (induction rm) (auto simp: conflictfile_def entries_def)

lemma length_entries: "length (entries d) = sum_list (map (length \<circ> snd) d)"
  by (simp add: entries_def length_concat comp_def)

lemma outputconflicts_reduced:
  assumes "outputconflicts opts tm cm = Inr w"
  shows "mset (entries (reduced w)) = mset (entries cm)
         \<and> files w = map (conflictfile opts) (reduced w)"
proof -
  from assms obtain rm where rm: "cluster cm [] = Inr rm"
    by (cases "cluster cm []") (simp_all add: outputconflicts_def)
  from assms rm obtain rm' where rm': "reduce_plurals (find_plurals rm) rm = Inr rm'"
    by (cases "reduce_plurals (find_plurals rm) rm") (simp_all add: outputconflicts_def)
  have w: "reduced w = rm'" "files w = map (conflictfile opts) rm'"
    using assms rm rm' by (auto simp: outputconflicts_def)
  have "mset (entries rm) = mset (entries cm)" using cluster_mset[OF rm] by simp
  moreover have "distinct (map fst rm)" using cluster_distinct[OF rm] by simp
  ultimately have "mset (entries rm') = mset (entries cm)"
    using reduce_plurals_mset[OF rm' _ find_plurals_pairs] by simp
  then show ?thesis using w by simp
qed

text \<open>
  C5. In a run that ends normally, every unit of every catalog written is a unit of
  some input catalog with one comment appended, \<^verbatim>\<open># (poconflicts) <path>\<close> and a
  newline, where \<^verbatim>\<open><path>\<close> is the input file the unit was read from; the catalogs
  hold exactly the entries of the reduced map; and the reduced map holds the entries
  of the conflict map, each as often as there, so the two total counts are equal.
  The regrouping by cluster key itself never fails on a conflict map and keeps the
  entries in the same way.
\<close>

theorem output_provenance:
  "(recursiveprocess opts inputfiles = Inr (st, w) \<longrightarrow>
      (\<forall>(path, units)\<in>set (files w). \<forall>u'\<in>set units.
         \<exists>filename items u.
           (filename, Inr items) \<in> set inputfiles \<and> Inr u \<in> set items
           \<and> u' = u\<lparr>othercomments :=
                      othercomments u @ [''# (poconflicts) '' @ filename @ [CHR 0x0A]]\<rparr>)
      \<and> concat (map snd (files w)) = map tag_unit (entries (reduced w))
      \<and> mset (entries (reduced w)) = mset (entries (buildconflictmap (textmap st)))
      \<and> sum_list (map (length \<circ> snd) (reduced w))
          = sum_list (map (length \<circ> snd) (buildconflictmap (textmap st))))
   \<and> (\<exists>rm. cluster (buildconflictmap tm) [] = Inr rm
          \<and> mset (entries rm) = mset (entries (buildconflictmap tm))
          \<and> sum_list (map (length \<circ> snd) rm)
              = sum_list (map (length \<circ> snd) (buildconflictmap tm)))"
proof (intro conjI impI)
  assume run: "recursiveprocess opts inputfiles = Inr (st, w)"
  let ?P = "\<lambda>e. case e of (t, u, filename) \<Rightarrow>
     \<exists>items. (filename, Inr items) \<in> set inputfiles \<and> Inr u \<in> set items"
  from run have pf: "process_files opts inputfiles \<lparr>textmap = [], warnings = []\<rparr> = Inr st"
    by (auto simp: recursiveprocess_def split: sum.splits)
  from run pf have oc: "outputconflicts opts (textmap st) (buildconflictmap (textmap st)) = Inr w"
    by (auto simp: recursiveprocess_def split: sum.splits)
  note red = outputconflicts_reduced[OF oc]
  have tmP: "\<forall>e\<in>set (entries (textmap st)). ?P e"
    by (rule process_files_entries[OF pf]) auto
  have redP: "\<forall>e\<in>set (entries (reduced w)). ?P e"
  proof
    fix e assume "e \<in> set (entries (reduced w))"
    then have "e \<in># mset (entries (buildconflictmap (textmap st)))" using red by (metis set_mset_mset)
    then have "e \<in> set (entries (textmap st))" using conflict_entries by simp
    then show "?P e" using tmP by blast
  qed
  show "\<forall>(path, units)\<in>set (files w). \<forall>u'\<in>set units.
         \<exists>filename items u.
           (filename, Inr items) \<in> set inputfiles \<and> Inr u \<in> set items
           \<and> u' = u\<lparr>othercomments :=
                      othercomments u @ [''# (poconflicts) '' @ filename @ [CHR 0x0A]]\<rparr>"
  proof (intro ballI, clarify)
    fix path units u'
    assume f: "(path, units) \<in> set (files w)" and u': "u' \<in> set units"
    then obtain k L where kL: "(k, L) \<in> set (reduced w)" and units: "units = map tag_unit L"
      using red by (auto simp: conflictfile_def)
    then obtain e where e: "e \<in> set L" and tag: "u' = tag_unit e" using u' by auto
    have "e \<in> set (entries (reduced w))" using kL e in_entries by blast
    then have Pe: "?P e" using redP by blast
    obtain t u filename where eq: "e = (t, u, filename)" by (cases e)
    then obtain items where "(filename, Inr items) \<in> set inputfiles" "Inr u \<in> set items"
      using Pe by auto
    moreover have "u' = u\<lparr>othercomments :=
                      othercomments u @ [''# (poconflicts) '' @ filename @ [CHR 0x0A]]\<rparr>"
      using tag eq by (simp add: tag_unit_def poconflicts_comment_def)
    ultimately show "\<exists>filename items u.
           (filename, Inr items) \<in> set inputfiles \<and> Inr u \<in> set items
           \<and> u' = u\<lparr>othercomments :=
                      othercomments u @ [''# (poconflicts) '' @ filename @ [CHR 0x0A]]\<rparr>"
      by blast
  qed
  show "concat (map snd (files w)) = map tag_unit (entries (reduced w))"
    using red entries_files[of opts "reduced w"] by (simp del: map_map)
  show "mset (entries (reduced w)) = mset (entries (buildconflictmap (textmap st)))"
    using red by simp
  then have "length (entries (reduced w)) = length (entries (buildconflictmap (textmap st)))"
    by (metis size_mset)
  then show "sum_list (map (length \<circ> snd) (reduced w))
          = sum_list (map (length \<circ> snd) (buildconflictmap (textmap st)))"
    by (simp add: length_entries)
next
  obtain rm where rm: "cluster (buildconflictmap tm) [] = Inr rm"
    using cluster_total[OF conflict_keys_split, of tm "[]"] by blast
  have m: "mset (entries rm) = mset (entries (buildconflictmap tm))"
    using cluster_mset[OF rm] by simp
  then have "length (entries rm) = length (entries (buildconflictmap tm))"
    by (metis size_mset)
  then have "sum_list (map (length \<circ> snd) rm)
              = sum_list (map (length \<circ> snd) (buildconflictmap tm))"
    by (simp add: length_entries)
  then show "\<exists>rm. cluster (buildconflictmap tm) [] = Inr rm
          \<and> mset (entries rm) = mset (entries (buildconflictmap tm))
          \<and> sum_list (map (length \<circ> snd) rm)
              = sum_list (map (length \<circ> snd) (buildconflictmap tm))"
    using rm m by blast
qed

theorem output_provenance_witness:
  "recursiveprocess default_options abrir_inputs = Inr (abrir_ingest, abrir_written)
   \<and> mset (entries (reduced abrir_written)) = mset (entries (buildconflictmap (textmap abrir_ingest)))
   \<and> concat (map snd (files abrir_written)) = map tag_unit (entries (reduced abrir_written))
   \<and> sum_list (map (length \<circ> snd) (reduced abrir_written)) = 2"
proof -
  have run: "recursiveprocess default_options abrir_inputs = Inr (abrir_ingest, abrir_written)"
    by code_simp
  note t = output_provenance[where opts = default_options and inputfiles = abrir_inputs
      and st = abrir_ingest and w = abrir_written, THEN conjunct1, THEN mp, OF run]
  have m: "mset (entries (reduced abrir_written))
      = mset (entries (buildconflictmap (textmap abrir_ingest)))"
    using t by (elim conjE)
  have f: "concat (map snd (files abrir_written)) = map tag_unit (entries (reduced abrir_written))"
    using t by (elim conjE)
  have n: "sum_list (map (length \<circ> snd) (reduced abrir_written)) = 2"
    by (simp add: abrir_written_def)
  show ?thesis using run m f n by (intro conjI)
qed

end
